theory Spec2Isabelle
  imports Complex_Main
begin

section \<open>Strings, errors and the Python runtime\<close>

text \<open>
  A Python \<open>str\<close> is a sequence of Unicode code points; a character is modelled by its
  code point, so that comparisons such as \<open>"a" <= c <= "z"\<close> are comparisons of numbers.
\<close>

type_synonym pychar = nat
type_synonym pystr = "pychar list"

definition of_str :: "string \<Rightarrow> pystr" where
  "of_str cs = map of_char cs"

datatype py_error = ZeroDivisionError | ValueError

text \<open>
  The builtins that consult the Unicode database (\<open>str.isdigit\<close>, \<open>str.isalnum\<close>,
  \<open>str.isspace\<close>, \<open>str.isalpha\<close>, \<open>str.lower\<close>, the regular expression classes
  \<open>\d\<close> and \<open>\s\<close>) are fixed on ASCII and written out below. Beyond ASCII their tables
  are a parameter: \<open>uni_lower\<close> receives the whole string and the index of the character,
  since \<open>str.lower\<close> may depend on the context and may give more than one character.
  The floating-point operations of the entropy loop (\<open>math.log2\<close>, \<open>*\<close>, \<open>-\<close>) are
  parameters as well, so that nothing below depends on how they round.

  A quotient of two ints is kept as the exact rational. The code compares such quotients,
  with denominators of at most 128, to the literals 0.55, 0.5, 0.3, 0.35 and 0.15. Division
  and literal are both rounded to the nearest double, rounding is monotone, and two
  different rationals of this kind are at least 1/2560 apart, so the comparison of the
  doubles and the comparison of the rationals agree. Lengths, \<open>min_run\<close> and \<open>k\<close> are
  natural numbers: the code passes 3, 4 and 5 only.
\<close>

record runtime =
  uni_isalpha :: "pychar \<Rightarrow> bool"
  uni_isdecimal :: "pychar \<Rightarrow> bool"
  uni_isdigit :: "pychar \<Rightarrow> bool"
  uni_isnumeric :: "pychar \<Rightarrow> bool"
  uni_isspace :: "pychar \<Rightarrow> bool"
  uni_lower :: "pystr \<Rightarrow> nat \<Rightarrow> pystr"
  fl_log2 :: "real \<Rightarrow> real"
  fl_mul :: "real \<Rightarrow> real \<Rightarrow> real"
  fl_sub :: "real \<Rightarrow> real \<Rightarrow> real"

definition ascii_lower_letter :: "pychar \<Rightarrow> bool" where
  "ascii_lower_letter c = (97 \<le> c \<and> c \<le> 122)"

definition ascii_upper_letter :: "pychar \<Rightarrow> bool" where
  "ascii_upper_letter c = (65 \<le> c \<and> c \<le> 90)"

definition ascii_letter :: "pychar \<Rightarrow> bool" where
  "ascii_letter c = (ascii_upper_letter c \<or> ascii_lower_letter c)"

definition ascii_digit :: "pychar \<Rightarrow> bool" where
  "ascii_digit c = (48 \<le> c \<and> c \<le> 57)"

definition ascii_space :: "pychar \<Rightarrow> bool" where
  \<comment> \<open>\<open>str.isspace\<close> on ASCII: tab to carriage return, the four separators FS to US, space.\<close>
  "ascii_space c = ((9 \<le> c \<and> c \<le> 13) \<or> (28 \<le> c \<and> c \<le> 32))"

definition py_isalpha :: "runtime \<Rightarrow> pychar \<Rightarrow> bool" where
  "py_isalpha R c = (if c < 128 then ascii_letter c else uni_isalpha R c)"

definition py_isdecimal :: "runtime \<Rightarrow> pychar \<Rightarrow> bool" where
  "py_isdecimal R c = (if c < 128 then ascii_digit c else uni_isdecimal R c)"

definition py_isdigit :: "runtime \<Rightarrow> pychar \<Rightarrow> bool" where
  "py_isdigit R c = (if c < 128 then ascii_digit c else uni_isdigit R c)"

definition py_isnumeric :: "runtime \<Rightarrow> pychar \<Rightarrow> bool" where
  "py_isnumeric R c = (if c < 128 then ascii_digit c else uni_isnumeric R c)"

definition py_isalnum :: "runtime \<Rightarrow> pychar \<Rightarrow> bool" where
  \<comment> \<open>\<open>str.isalnum\<close>: one of \<open>isalpha\<close>, \<open>isdecimal\<close>, \<open>isdigit\<close>, \<open>isnumeric\<close> holds.\<close>
  "py_isalnum R c = (py_isalpha R c \<or> py_isdecimal R c \<or> py_isdigit R c \<or> py_isnumeric R c)"

definition py_isspace :: "runtime \<Rightarrow> pychar \<Rightarrow> bool" where
  "py_isspace R c = (if c < 128 then ascii_space c else uni_isspace R c)"

definition ascii_lower :: "pychar \<Rightarrow> pychar" where
  "ascii_lower c = (if ascii_upper_letter c then c + 32 else c)"

definition lower_at :: "runtime \<Rightarrow> pystr \<Rightarrow> nat \<Rightarrow> pystr" where
  "lower_at R s i = (if s ! i < 128 then [ascii_lower (s ! i)] else uni_lower R s i)"

definition py_lower :: "runtime \<Rightarrow> pystr \<Rightarrow> pystr" where
  \<comment> \<open>\<open>s.lower()\<close>\<close>
  "py_lower R s = concat (map (lower_at R s) [0..<length s])"

fun starts_with :: "pystr \<Rightarrow> pystr \<Rightarrow> bool" where
  "starts_with [] ys = True"
| "starts_with (x # xs) [] = False"
| "starts_with (x # xs) (y # ys) = (x = y \<and> starts_with xs ys)"

fun py_in :: "pystr \<Rightarrow> pystr \<Rightarrow> bool" where
  \<comment> \<open>\<open>x in text\<close> on strings: \<open>x\<close> occurs in \<open>text\<close> as a contiguous substring.\<close>
  "py_in xs [] = (xs = [])"
| "py_in xs (y # ys) = (starts_with xs (y # ys) \<or> py_in xs ys)"

definition is_nl_cr :: "pychar \<Rightarrow> bool" where
  "is_nl_cr c = (c = 10 \<or> c = 13)"

definition strip_nl_cr :: "pystr \<Rightarrow> pystr" where
  \<comment> \<open>\<open>password.strip("\n\r")\<close>\<close>
  "strip_nl_cr s = rev (dropWhile is_nl_cr (rev (dropWhile is_nl_cr s)))"

definition py_truediv :: "nat \<Rightarrow> nat \<Rightarrow> py_error + real" where
  \<comment> \<open>\<open>a / b\<close> on non-negative ints; the quotient is kept exact.\<close>
  "py_truediv a b = (if b = 0 then Inl ZeroDivisionError else Inr (real a / real b))"

definition math_log2 :: "runtime \<Rightarrow> real \<Rightarrow> py_error + real" where
  \<comment> \<open>\<open>math.log2\<close> raises ValueError outside its domain.\<close>
  "math_log2 R x = (if x \<le> 0 then Inl ValueError else Inr (fl_log2 R x))"

section \<open>The helper functions of \<open>is_valid_password\<close>\<close>

subsection \<open>shannon_entropy_per_char\<close>

fun freq_add :: "pychar \<Rightarrow> (pychar \<times> nat) list \<Rightarrow> (pychar \<times> nat) list" where
  \<comment> \<open>\<open>freq[ch] = freq.get(ch, 0) + 1\<close> on a dict kept in insertion order\<close>
  "freq_add ch [] = [(ch, 1)]"
| "freq_add ch ((k, v) # kvs) =
     (if k = ch then (k, v + 1) # kvs else (k, v) # freq_add ch kvs)"

definition char_freq :: "pystr \<Rightarrow> (pychar \<times> nat) list" where
  "char_freq text = foldl (\<lambda>freq ch. freq_add ch freq) [] text"

fun entropy_loop :: "runtime \<Rightarrow> nat \<Rightarrow> nat list \<Rightarrow> real \<Rightarrow> py_error + real" where
  "entropy_loop R n [] H = Inr H"
| "entropy_loop R n (c # cs) H =
     (case py_truediv c n of
        Inl e \<Rightarrow> Inl e
      | Inr p \<Rightarrow>
          (case math_log2 R p of
             Inl e \<Rightarrow> Inl e
           | Inr l \<Rightarrow> entropy_loop R n cs (fl_sub R H (fl_mul R p l))))"

definition shannon_entropy_per_char :: "runtime \<Rightarrow> pystr \<Rightarrow> py_error + real" where
  "shannon_entropy_per_char R text =
     (if text = [] then Inr 0
      else entropy_loop R (length text) (map snd (char_freq text)) 0)"

subsection \<open>char_classes\<close>

definition char_classes :: "runtime \<Rightarrow> pystr \<Rightarrow> bool \<times> bool \<times> bool \<times> bool" where
  "char_classes R text =
     (let has_lower = list_ex (\<lambda>c. 97 \<le> c \<and> c \<le> 122) text;
          has_upper = list_ex (\<lambda>c. 65 \<le> c \<and> c \<le> 90) text;
          has_digit = list_ex (\<lambda>c. py_isdigit R c) text;
          has_symbol = list_ex (\<lambda>c. \<not> py_isalnum R c \<and> \<not> py_isspace R c) text
      in (has_lower, has_upper, has_digit, has_symbol))"

subsection \<open>looks_like_sequence and has_keyboard_run\<close>

definition looks_like_sequence :: "pystr \<Rightarrow> nat \<Rightarrow> bool" where
  "looks_like_sequence text min_run =
     (if length text < min_run then False
      else
        let runs = [of_str ''abcdefghijklmnopqrstuvwxyz'',
                    of_str ''ABCDEFGHIJKLMNOPQRSTUVWXYZ'',
                    of_str ''0123456789'']
        in list_ex (\<lambda>r.
             list_ex (\<lambda>i. py_in (take min_run (drop i r)) text)
               [0..<length r + 1 - min_run]
             \<or> list_ex (\<lambda>i. py_in (take min_run (drop i (rev r))) text)
                  [0..<length (rev r) + 1 - min_run]) runs)"

definition has_keyboard_run :: "runtime \<Rightarrow> pystr \<Rightarrow> nat \<Rightarrow> bool" where
  "has_keyboard_run R text min_run =
     (let rows = [of_str ''qwertyuiop'', of_str ''asdfghjkl'', of_str ''zxcvbnm''];
          t = py_lower R text
      in list_ex (\<lambda>row.
           list_ex (\<lambda>i. let seg = take min_run (drop i row)
                        in py_in seg t \<or> py_in (rev seg) t)
             [0..<length row + 1 - min_run]) rows)"

subsection \<open>looks_like_word_segment and wordish_presence\<close>

definition is_vowel :: "pychar \<Rightarrow> bool" where
  \<comment> \<open>the class \<open>[AEIOUaeiou]\<close>\<close>
  "is_vowel c = (c \<in> set (of_str ''AEIOUaeiou''))"

definition is_consonant :: "pychar \<Rightarrow> bool" where
  \<comment> \<open>the class \<open>[B-DF-HJ-NP-TV-Zb-df-hj-np-tv-z]\<close>\<close>
  "is_consonant c =
     ((66 \<le> c \<and> c \<le> 68) \<or> (70 \<le> c \<and> c \<le> 72) \<or> (74 \<le> c \<and> c \<le> 78)
      \<or> (80 \<le> c \<and> c \<le> 84) \<or> (86 \<le> c \<and> c \<le> 90)
      \<or> (98 \<le> c \<and> c \<le> 100) \<or> (102 \<le> c \<and> c \<le> 104) \<or> (106 \<le> c \<and> c \<le> 110)
      \<or> (112 \<le> c \<and> c \<le> 116) \<or> (118 \<le> c \<and> c \<le> 122))"

fun re_search3 ::
  "(pychar \<Rightarrow> bool) \<Rightarrow> (pychar \<Rightarrow> bool) \<Rightarrow> (pychar \<Rightarrow> bool) \<Rightarrow> pystr \<Rightarrow> bool" where
  \<comment> \<open>\<open>re.search\<close> for three character classes in a row\<close>
  "re_search3 p q r (a # b # c # cs) =
     ((p a \<and> q b \<and> r c) \<or> re_search3 p q r (b # c # cs))"
| "re_search3 p q r cs = False"

definition looks_like_word_segment :: "runtime \<Rightarrow> pystr \<Rightarrow> bool" where
  "looks_like_word_segment R seg0 =
     (let seg = filter ascii_letter seg0
      in if length seg < 4 then False
         else
           let has_vowel = list_ex is_vowel seg;
               has_cons = list_ex (\<lambda>c. py_isalpha R c
                                     \<and> \<not> py_in (py_lower R [c]) (of_str ''aeiou'')) seg;
               sandwich = re_search3 is_consonant is_vowel is_consonant seg
           in has_vowel \<and> has_cons \<and> sandwich)"

definition is_separator :: "runtime \<Rightarrow> pychar \<Rightarrow> bool" where
  \<comment> \<open>the class \<open>[\s\-_\.@#\$%!:\+\*]\<close>\<close>
  "is_separator R c = (py_isspace R c \<or> c \<in> set (of_str ''-_.@#$%!:+*''))"

fun re_split :: "(pychar \<Rightarrow> bool) \<Rightarrow> bool \<Rightarrow> pystr \<Rightarrow> pystr \<Rightarrow> pystr list" where
  \<comment> \<open>\<open>re.split\<close> on runs of separators; \<open>in_sep\<close> says that the previous character was
      a separator, \<open>cur\<close> is the chunk read so far, reversed\<close>
  "re_split sep in_sep cur [] = [rev cur]"
| "re_split sep in_sep cur (c # cs) =
     (if sep c then
        (if in_sep then re_split sep True cur cs
         else rev cur # re_split sep True [] cs)
      else re_split sep False (c # cur) cs)"

definition camel_here :: "pystr \<Rightarrow> bool" where
  \<comment> \<open>\<open>[A-Z][a-z]+[A-Z][a-z]*\<close> matches at the start of the string\<close>
  "camel_here text =
     (case text of
        [] \<Rightarrow> False
      | u # rest \<Rightarrow>
          ascii_upper_letter u \<and> takeWhile ascii_lower_letter rest \<noteq> []
          \<and> (case dropWhile ascii_lower_letter rest of
                [] \<Rightarrow> False
              | v # _ \<Rightarrow> ascii_upper_letter v))"

fun re_search_camel :: "pystr \<Rightarrow> bool" where
  "re_search_camel [] = False"
| "re_search_camel (c # cs) = (camel_here (c # cs) \<or> re_search_camel cs)"

definition wordish_presence :: "runtime \<Rightarrow> pystr \<Rightarrow> bool" where
  "wordish_presence R text =
     (if list_ex (looks_like_word_segment R) (re_split (is_separator R) False [] text)
      then True
      else if re_search_camel text then True
      else False)"

subsection \<open>repeating_substring and long_run_same_char\<close>

definition repeating_substring :: "pystr \<Rightarrow> bool" where
  "repeating_substring text =
     (let n = length text
      in list_ex (\<lambda>m. n mod m = 0 \<and> text = concat (replicate (n div m) (take m text)))
           [1..<min 4 n])"

fun long_run_same_char :: "pystr \<Rightarrow> nat \<Rightarrow> bool" where
  \<comment> \<open>\<open>re.search\<close> for \<open>(.)\1{k,}\<close>; the dot does not match a newline\<close>
  "long_run_same_char [] k = False"
| "long_run_same_char (c # cs) k =
     ((c \<noteq> 10 \<and> starts_with (replicate k c) cs) \<or> long_run_same_char cs k)"

subsection \<open>ambiguous_ratio, non_edge_digit_symbol, has_year_like_suffix\<close>

definition ambiguous_ratio :: "pystr \<Rightarrow> py_error + real" where
  "ambiguous_ratio text =
     (let groups = [of_str ''0O'', of_str ''1lI'', of_str ''5S'',
                    of_str ''8B'', of_str ''2Z'', of_str ''6G''];
          amb = length (filter (\<lambda>ch. list_ex (\<lambda>g. ch \<in> set g) groups) text)
      in py_truediv amb (max 1 (length text)))"

definition non_edge_digit_symbol :: "pystr \<Rightarrow> bool" where
  "non_edge_digit_symbol text =
     (re_search3 ascii_letter ascii_digit ascii_letter text
      \<or> re_search3 ascii_letter (\<lambda>c. \<not> (ascii_letter c \<or> ascii_digit c)) ascii_letter text)"

definition year_like :: "runtime \<Rightarrow> pystr \<Rightarrow> bool" where
  \<comment> \<open>the four characters match \<open>19\d{2}|20[0-3]\d\<close>\<close>
  "year_like R w =
     (length w = 4 \<and>
      ((w ! 0 = 49 \<and> w ! 1 = 57 \<and> py_isdecimal R (w ! 2) \<and> py_isdecimal R (w ! 3))
       \<or> (w ! 0 = 50 \<and> w ! 1 = 48 \<and> 48 \<le> w ! 2 \<and> w ! 2 \<le> 51 \<and> py_isdecimal R (w ! 3))))"

definition has_year_like_suffix :: "runtime \<Rightarrow> pystr \<Rightarrow> bool" where
  \<comment> \<open>\<open>$\<close> matches at the end of the string and before a newline that ends it\<close>
  "has_year_like_suffix R text =
     (let n = length text
      in (4 \<le> n \<and> year_like R (drop (n - 4) text))
         \<or> (5 \<le> n \<and> last text = 10 \<and> year_like R (take 4 (drop (n - 5) text))))"

section \<open>is_valid_password\<close>

definition COMMON_BAD :: "pystr list" where
  "COMMON_BAD =
     [of_str ''password'', of_str ''passw0rd'', of_str ''qwerty'', of_str ''asdfgh'',
      of_str ''zxcvbn'', of_str ''iloveyou'', of_str ''welcome'', of_str ''admin'',
      of_str ''letmein'', of_str ''login'', of_str ''user'', of_str ''guest'',
      of_str ''abc123'', of_str ''password1'', of_str ''p@ssword'', of_str ''dragon'',
      of_str ''football'']"

definition fatal_blocks :: "runtime \<Rightarrow> pystr \<Rightarrow> py_error + bool" where
  \<comment> \<open>the auto-reject rules; \<open>Inr True\<close> when one of them returns False from the function\<close>
  "fatal_blocks R s =
     (let lowered = py_lower R s
      in if list_ex (\<lambda>token. py_in token lowered) COMMON_BAD then Inr True
         else if looks_like_sequence s 5 \<or> has_keyboard_run R s 5 then Inr True
         else if repeating_substring s then Inr True
         else if long_run_same_char s 4 then Inr True
         else (case ambiguous_ratio s of
                 Inl e \<Rightarrow> Inl e
               | Inr a \<Rightarrow> if a > 0.55 then Inr True else Inr False))"

definition scoring :: "runtime \<Rightarrow> pystr \<Rightarrow> py_error + int" where
  \<comment> \<open>the soft checks, in the order of the source\<close>
  "scoring R s =
     (let score = (0::int);
          score = (if 10 \<le> length s \<and> length s \<le> 64 then score + 2
                   else if 8 \<le> length s \<and> length s < 10 then score + 1
                   else score + 0);
          (has_lower, has_upper, has_digit, has_symbol) = char_classes R s;
          class_count = sum_list (map of_bool [has_lower, has_upper, has_digit, has_symbol]) :: nat;
          score = (if class_count \<ge> 3 then score + 2
                   else if class_count = 2 then score + 1
                   else score - 3);
          score = (if wordish_presence R s then score + 2 else score);
          score = (if non_edge_digit_symbol s then score + 1 else score);
          score = (if has_year_like_suffix R s then score - 2 else score);
          score = (if looks_like_sequence s 4 then score - 2 else score);
          score = (if has_keyboard_run R s 4 then score - 2 else score);
          score = (if long_run_same_char s 3 then score - 2 else score)
      in (case py_truediv (length (remdups s)) (length s) of
            Inl e \<Rightarrow> Inl e
          | Inr uniq_ratio \<Rightarrow>
             (let score = (if uniq_ratio \<ge> 0.5 then score + 1
                           else if uniq_ratio \<le> 0.3 then score - 1
                           else score)
              in (case ambiguous_ratio s of
                    Inl e \<Rightarrow> Inl e
                  | Inr amb \<Rightarrow>
                     (let score = (if amb > 0.35 then score - 2
                                   else if amb > 0.15 then score - 1
                                   else score)
                      in (case shannon_entropy_per_char R s of
                            Inl e \<Rightarrow> Inl e
                          | Inr H \<Rightarrow>
                             (let score = (if length s \<ge> 12 \<and> H \<ge> 2.5 then score + 1
                                           else score)
                              in Inr score)))))))"

definition is_valid_password :: "runtime \<Rightarrow> pystr \<Rightarrow> py_error + bool" where
  "is_valid_password R password =
     (let s = strip_nl_cr password
      in if length s < 8 then Inr False
         else if length s > 128 then Inr False
         else (case fatal_blocks R s of
                 Inl e \<Rightarrow> Inl e
               | Inr True \<Rightarrow> Inr False
               | Inr False \<Rightarrow>
                   (case scoring R s of
                      Inl e \<Rightarrow> Inl e
                    | Inr score \<Rightarrow> Inr (score \<ge> 3))))"

section \<open>The decision as a table\<close>

text \<open>
  The verdict restated the way section 4.4 of the specification tabulates it: a fatal
  predicate and a sum of signal deltas. These definitions are compared with the code above.
\<close>

definition amb_count :: "pystr \<Rightarrow> nat" where
  "amb_count text = length (filter (\<lambda>ch. ch \<in> set (of_str ''0O1lI5S8B2Z6G'')) text)"

definition amb_frac :: "pystr \<Rightarrow> real" where
  "amb_frac text = real (amb_count text) / real (max 1 (length text))"

definition unique_ratio :: "pystr \<Rightarrow> real" where
  "unique_ratio s = real (card (set s)) / real (length s)"

definition entropy_value :: "runtime \<Rightarrow> pystr \<Rightarrow> real" where
  "entropy_value R s = (case shannon_entropy_per_char R s of Inl e \<Rightarrow> 0 | Inr H \<Rightarrow> H)"

definition denylisted :: "runtime \<Rightarrow> pystr \<Rightarrow> bool" where
  "denylisted R s = list_ex (\<lambda>token. py_in token (py_lower R s)) COMMON_BAD"

definition fatal :: "runtime \<Rightarrow> pystr \<Rightarrow> bool" where
  "fatal R s =
     (denylisted R s
      \<or> (looks_like_sequence s 5 \<or> has_keyboard_run R s 5)
      \<or> repeating_substring s
      \<or> long_run_same_char s 4
      \<or> amb_frac s > 0.55)"

definition class_count :: "runtime \<Rightarrow> pystr \<Rightarrow> nat" where
  "class_count R s =
     (case char_classes R s of
        (has_lower, has_upper, has_digit, has_symbol) \<Rightarrow>
          sum_list (map of_bool [has_lower, has_upper, has_digit, has_symbol]))"

definition length_points :: "pystr \<Rightarrow> int" where
  "length_points s =
     (if 10 \<le> length s \<and> length s \<le> 64 then 2
      else if 8 \<le> length s \<and> length s < 10 then 1 else 0)"

definition class_points :: "runtime \<Rightarrow> pystr \<Rightarrow> int" where
  "class_points R s =
     (if 3 \<le> class_count R s then 2 else if class_count R s = 2 then 1 else - 3)"

definition wordish_points :: "runtime \<Rightarrow> pystr \<Rightarrow> int" where
  "wordish_points R s = (if wordish_presence R s then 2 else 0)"

definition interior_points :: "pystr \<Rightarrow> int" where
  "interior_points s = (if non_edge_digit_symbol s then 1 else 0)"

definition year_points :: "runtime \<Rightarrow> pystr \<Rightarrow> int" where
  "year_points R s = (if has_year_like_suffix R s then - 2 else 0)"

definition sequence_points :: "pystr \<Rightarrow> int" where
  "sequence_points s = (if looks_like_sequence s 4 then - 2 else 0)"

definition keyboard_points :: "runtime \<Rightarrow> pystr \<Rightarrow> int" where
  "keyboard_points R s = (if has_keyboard_run R s 4 then - 2 else 0)"

definition repetition_points :: "pystr \<Rightarrow> int" where
  "repetition_points s = (if long_run_same_char s 3 then - 2 else 0)"

definition unique_points :: "pystr \<Rightarrow> int" where
  "unique_points s =
     (if unique_ratio s \<ge> 0.5 then 1 else if unique_ratio s \<le> 0.3 then - 1 else 0)"

definition ambiguity_points :: "pystr \<Rightarrow> int" where
  "ambiguity_points s =
     (if amb_frac s > 0.35 then - 2 else if amb_frac s > 0.15 then - 1 else 0)"

definition entropy_points :: "runtime \<Rightarrow> pystr \<Rightarrow> int" where
  "entropy_points R s = (if 12 \<le> length s \<and> entropy_value R s \<ge> 2.5 then 1 else 0)"

definition base_points :: "runtime \<Rightarrow> pystr \<Rightarrow> int" where
  \<comment> \<open>every row of the table but the entropy bonus\<close>
  "base_points R s =
     length_points s + class_points R s + wordish_points R s + interior_points s
     + year_points R s + sequence_points s + keyboard_points R s + repetition_points s
     + unique_points s + ambiguity_points s"

definition table_score :: "runtime \<Rightarrow> pystr \<Rightarrow> int" where
  "table_score R s = base_points R s + entropy_points R s"

section \<open>Reference predicates and a concrete runtime\<close>

definition spec_periodic :: "pystr \<Rightarrow> bool" where
  \<comment> \<open>the specification's wording of periodicity: some unit of length 1, 2 or 3 that divides
      the length, repeated to fill the string\<close>
  "spec_periodic text =
     (\<exists>m\<in>{1, 2, 3}. length text mod m = 0
        \<and> (\<exists>u. length u = m \<and> text = concat (replicate (length text div m) u)))"

definition repeats_consecutively :: "pystr \<Rightarrow> nat \<Rightarrow> bool" where
  \<comment> \<open>some character occurs \<open>n\<close> or more times in a row\<close>
  "repeats_consecutively text n = list_ex (\<lambda>c. py_in (replicate n c) text) text"

definition spec_fatal :: "runtime \<Rightarrow> pystr \<Rightarrow> bool" where
  \<comment> \<open>the five fatal checks in the words of the specification\<close>
  "spec_fatal R s =
     (denylisted R s
      \<or> (looks_like_sequence s 5 \<or> has_keyboard_run R s 5)
      \<or> spec_periodic s
      \<or> repeats_consecutively s 5
      \<or> amb_frac s > 0.55)"

definition spec_repetition_points :: "pystr \<Rightarrow> int" where
  "spec_repetition_points s = (if repeats_consecutively s 4 then - 2 else 0)"

definition spec_score :: "runtime \<Rightarrow> pystr \<Rightarrow> int" where
  \<comment> \<open>the table of section 4.4, the repetition row read as the specification words it\<close>
  "spec_score R s =
     length_points s + class_points R s + wordish_points R s + interior_points s
     + year_points R s + sequence_points s + keyboard_points R s + spec_repetition_points s
     + unique_points s + ambiguity_points s + entropy_points R s"

definition latin1_runtime :: runtime where
  \<comment> \<open>CPython's tables on the code points 128 to 255, nothing classified above them, and
      exact arithmetic for the floating-point operations; used for closed evaluations\<close>
  "latin1_runtime =
     \<lparr> uni_isalpha = (\<lambda>c. c = 170 \<or> c = 181 \<or> c = 186 \<or> (192 \<le> c \<and> c \<le> 214)
                           \<or> (216 \<le> c \<and> c \<le> 246) \<or> (248 \<le> c \<and> c \<le> 255)),
       uni_isdecimal = (\<lambda>c. False),
       uni_isdigit = (\<lambda>c. c = 178 \<or> c = 179 \<or> c = 185),
       uni_isnumeric = (\<lambda>c. c = 178 \<or> c = 179 \<or> c = 185 \<or> (188 \<le> c \<and> c \<le> 190)),
       uni_isspace = (\<lambda>c. c = 133 \<or> c = 160),
       uni_lower = (\<lambda>s i. if (192 \<le> s ! i \<and> s ! i \<le> 214) \<or> (216 \<le> s ! i \<and> s ! i \<le> 222)
                            then [s ! i + 32] else [s ! i]),
       fl_log2 = (\<lambda>x. log 2 x),
       fl_mul = (\<lambda>x y. x * y),
       fl_sub = (\<lambda>x y. x - y) \<rparr>"

section \<open>Basic facts\<close>

lemma starts_with_iff: "starts_with xs ys \<longleftrightarrow> (\<exists>ss. ys = xs @ ss)"
  by (induction xs ys rule: starts_with.induct) auto

lemma py_in_iff: "py_in xs ys \<longleftrightarrow> (\<exists>ps ss. ys = ps @ xs @ ss)"
proof (induction ys)
  case Nil
  then show ?case by auto
next
  case (Cons y ys)
  show ?case
  proof
    assume "py_in xs (y # ys)"
    then consider "starts_with xs (y # ys)" | "py_in xs ys" by auto
    then show "\<exists>ps ss. y # ys = ps @ xs @ ss"
    proof cases
      case 1
      then obtain ss where "y # ys = xs @ ss" by (auto simp: starts_with_iff)
      then have "y # ys = [] @ xs @ ss" by simp
      then show ?thesis by blast
    next
      case 2
      then obtain ps ss where "ys = ps @ xs @ ss" using Cons.IH by auto
      then have "y # ys = (y # ps) @ xs @ ss" by simp
      then show ?thesis by blast
    qed
  next
    assume "\<exists>ps ss. y # ys = ps @ xs @ ss"
    then obtain ps ss where eq: "y # ys = ps @ xs @ ss" by auto
    show "py_in xs (y # ys)"
    proof (cases ps)
      case Nil
      then have "starts_with xs (y # ys)" using eq by (auto simp: starts_with_iff)
      then show ?thesis by simp
    next
      case (Cons p ps')
      then have "ys = ps' @ xs @ ss" using eq by simp
      then have "py_in xs ys" using Cons.IH by blast
      then show ?thesis by simp
    qed
  qed
qed

lemma py_truediv_pos: "0 < b \<Longrightarrow> py_truediv a b = Inr (real a / real b)"
  by (simp add: py_truediv_def)

lemma ambiguous_ratio_eq: "ambiguous_ratio text = Inr (amb_frac text)"
proof -
  have "(\<lambda>ch. list_ex (\<lambda>g. ch \<in> set g) [of_str ''0O'', of_str ''1lI'', of_str ''5S'',
                    of_str ''8B'', of_str ''2Z'', of_str ''6G''])
        = (\<lambda>ch. ch \<in> set (of_str ''0O1lI5S8B2Z6G''))"
    by (auto simp: of_str_def)
  then show ?thesis
    by (simp add: ambiguous_ratio_def amb_frac_def amb_count_def py_truediv_def)
qed

lemma freq_add_pos: "\<forall>kv\<in>set freq. 0 < snd kv \<Longrightarrow> \<forall>kv\<in>set (freq_add ch freq). 0 < snd kv"
  by (induction ch freq rule: freq_add.induct) auto

lemma foldl_freq_pos:
  "\<forall>kv\<in>set freq. 0 < snd kv \<Longrightarrow> \<forall>kv\<in>set (foldl (\<lambda>freq ch. freq_add ch freq) freq text). 0 < snd kv"
proof (induction "text" arbitrary: freq)
  case Nil
  then show ?case by simp
next
  case (Cons c cs)
  have "\<forall>kv\<in>set (freq_add c freq). 0 < snd kv" using Cons.prems by (rule freq_add_pos)
  then show ?case using Cons.IH by simp
qed

lemma char_freq_pos: "\<forall>c\<in>set (map snd (char_freq text)). 0 < c"
  using foldl_freq_pos [of "[]" "text"] by (auto simp: char_freq_def)

lemma entropy_loop_total:
  "0 < n \<Longrightarrow> \<forall>c\<in>set cs. 0 < c \<Longrightarrow> \<exists>H'. entropy_loop R n cs H = Inr H'"
proof (induction cs arbitrary: H)
  case Nil
  then show ?case by simp
next
  case (Cons c cs)
  have "0 < real c / real n" using Cons.prems by simp
  then have "math_log2 R (real c / real n) = Inr (fl_log2 R (real c / real n))"
    by (simp add: math_log2_def)
  moreover have "py_truediv c n = Inr (real c / real n)"
    using Cons.prems by (simp add: py_truediv_def)
  ultimately show ?case using Cons by simp
qed

lemma shannon_entropy_total: "\<exists>H. shannon_entropy_per_char R text = Inr H"
proof (cases "text = []")
  case True
  then show ?thesis by (simp add: shannon_entropy_per_char_def)
next
  case False
  then have "0 < length text" by simp
  then have "\<exists>H'. entropy_loop R (length text) (map snd (char_freq text)) 0 = Inr H'"
    using char_freq_pos by (rule entropy_loop_total)
  then show ?thesis using False
    by (simp add: shannon_entropy_per_char_def)
qed


lemma pts_add_add: "(if c then (x::int) + a else x + b) = x + (if c then a else b)" by simp
lemma pts_sub_add: "(if c then (x::int) - a else x + b) = x + (if c then - a else b)" by simp
lemma pts_add_sub: "(if c then (x::int) + a else x - b) = x + (if c then a else - b)" by simp
lemma pts_add: "(if c then (x::int) + a else x) = x + (if c then a else 0)" by simp
lemma pts_sub: "(if c then (x::int) - a else x) = x + (if c then - a else 0)" by simp
lemmas pts = pts_add_add pts_sub_add pts_add_sub pts_add pts_sub

lemma scoring_eq:
  assumes "s \<noteq> []"
  shows "scoring R s = Inr (table_score R s)"
proof -
  obtain H where H: "shannon_entropy_per_char R s = Inr H"
    using shannon_entropy_total by blast
  obtain a b c d where cc: "char_classes R s = (a, b, c, d)"
    by (cases "char_classes R s") auto
  have len: "0 < length s" using assms by simp
  have card: "length (remdups s) = card (set s)" by (simp add: length_remdups_card_conv)
  have ur: "real (card (set s)) / real (length s) = unique_ratio s"
    by (simp add: unique_ratio_def)
  have ev: "entropy_value R s = H" by (simp add: entropy_value_def H)
  show ?thesis
    unfolding scoring_def table_score_def base_points_def
      length_points_def class_points_def class_count_def wordish_points_def
      interior_points_def year_points_def sequence_points_def keyboard_points_def
      repetition_points_def unique_points_def ambiguity_points_def entropy_points_def
      cc ev
    apply (simp only: pts prod.case)
    apply (simp only: Let_def card py_truediv_pos [OF len] ambiguous_ratio_eq H sum.case ur)
    apply (simp only: pts add_0 prod.case case_prod_conv)
    done
qed

lemma fatal_blocks_eq: "fatal_blocks R s = Inr (fatal R s)"
  by (simp add: fatal_blocks_def fatal_def denylisted_def ambiguous_ratio_eq Let_def)

lemma is_valid_password_eq:
  "is_valid_password R password =
     Inr (8 \<le> length (strip_nl_cr password) \<and> length (strip_nl_cr password) \<le> 128
          \<and> \<not> fatal R (strip_nl_cr password) \<and> 3 \<le> table_score R (strip_nl_cr password))"
proof (cases "8 \<le> length (strip_nl_cr password) \<and> length (strip_nl_cr password) \<le> 128")
  case True
  then have "strip_nl_cr password \<noteq> []" by auto
  then have "scoring R (strip_nl_cr password) = Inr (table_score R (strip_nl_cr password))"
    by (rule scoring_eq)
  then show ?thesis using True
    by (simp add: is_valid_password_def fatal_blocks_eq Let_def split: bool.splits)
next
  case False
  then show ?thesis
    by (auto simp: is_valid_password_def Let_def)
qed

lemma entropy_points_range: "0 \<le> entropy_points R s \<and> entropy_points R s \<le> 1"
  by (simp add: entropy_points_def)

lemma accept_by_base:
  assumes "8 \<le> length (strip_nl_cr password) \<and> length (strip_nl_cr password) \<le> 128
          \<and> \<not> fatal R (strip_nl_cr password) \<and> 3 \<le> base_points R (strip_nl_cr password)"
  shows "is_valid_password R password = Inr True"
proof -
  have "base_points R (strip_nl_cr password) \<le> table_score R (strip_nl_cr password)"
    using entropy_points_range [of R "strip_nl_cr password"] by (simp add: table_score_def)
  then show ?thesis using assms by (simp add: is_valid_password_eq)
qed

lemma accepts_mintChai: "is_valid_password R (of_str ''mintChai#27Drift'') = Inr True"
  by (rule accept_by_base) code_simp

lemma accepts_NovaTrail: "is_valid_password R (of_str ''NovaTrail_19$elm'') = Inr True"
  by (rule accept_by_base) code_simp

lemma accepts_mintCh7: "is_valid_password R (of_str ''mintCh#7'') = Inr True"
  by (rule accept_by_base) code_simp

lemma rejects_password123: "is_valid_password R (of_str ''password123'') = Inr False"
  by code_simp

lemma rejects_11111111: "is_valid_password R (of_str ''11111111'') = Inr False"
  by code_simp

lemma rejects_O0: "is_valid_password R (of_str ''O0O0O0O0'') = Inr False"
  by code_simp

lemma rejects_AB: "is_valid_password R (of_str ''ABABABAB'') = Inr False"
  by code_simp

lemma rejects_asdfghjk: "is_valid_password R (of_str ''asdfghjk'') = Inr False"
  by code_simp

lemma scoring_empty: "scoring R [] = Inl ZeroDivisionError"
  by (simp add: scoring_def py_truediv_def Let_def split: prod.splits)

lemma dropWhile_append_keeps:
  assumes "t \<noteq> []" "\<not> P (hd t)"
  shows "\<exists>ps. dropWhile P (s @ t) = ps @ t"
proof (induction s)
  case Nil
  have "dropWhile P t = t" using assms by (cases t) auto
  then show ?case by simp
next
  case (Cons x xs)
  show ?case
  proof (cases "P x")
    case True
    then show ?thesis using Cons.IH by simp
  next
    case False
    then have "dropWhile P ((x # xs) @ t) = (x # xs) @ t" by simp
    then show ?thesis by blast
  qed
qed

lemma strip_append_keeps:
  assumes "t \<noteq> []" "\<not> is_nl_cr (hd t)" "\<not> is_nl_cr (last t)"
  shows "\<exists>ps. strip_nl_cr (s @ t) = ps @ t"
proof -
  obtain ps where ps: "dropWhile is_nl_cr (s @ t) = ps @ t"
    using dropWhile_append_keeps [where P = is_nl_cr and t = t and s = s] assms(1,2) by blast
  have "rev (ps @ t) = rev t @ rev ps" by simp
  moreover have "dropWhile is_nl_cr (rev t @ rev ps) = rev t @ rev ps"
    using assms(1,3) by (cases "rev t") (auto simp: hd_rev dest: arg_cong [where f = hd])
  ultimately show ?thesis by (simp add: strip_nl_cr_def ps)
qed

lemma py_in_length: "py_in xs ys \<Longrightarrow> length xs \<le> length ys"
  by (auto simp: py_in_iff)

lemma sequence_12345:
  assumes "py_in (of_str ''12345'') t"
  shows "looks_like_sequence t 5"
proof -
  have len: "5 \<le> length t" using py_in_length [OF assms] by (simp add: of_str_def)
  have w: "take 5 (drop 1 (of_str ''0123456789'')) = of_str ''12345''" by code_simp
  have i: "(1::nat) \<in> set [0..<length (of_str ''0123456789'') + 1 - 5]"
    by (simp add: of_str_def)
  have "list_ex (\<lambda>i. py_in (take 5 (drop i (of_str ''0123456789''))) t)
          [0..<length (of_str ''0123456789'') + 1 - 5]"
    unfolding list_ex_iff using i w assms by (intro bexI [of _ 1]) simp_all
  then show ?thesis using len
    by (simp add: looks_like_sequence_def Let_def)
qed

lemma append_12345_rejected: "is_valid_password R (s @ of_str ''12345'') = Inr False"
proof -
  have "\<exists>ps. strip_nl_cr (s @ of_str ''12345'') = ps @ of_str ''12345''"
    by (rule strip_append_keeps) (simp_all add: of_str_def is_nl_cr_def)
  then obtain ps where ps: "strip_nl_cr (s @ of_str ''12345'') = ps @ of_str ''12345''" by blast
  have "py_in (of_str ''12345'') (ps @ of_str ''12345'')"
    unfolding py_in_iff by (intro exI [of _ ps] exI [of _ "[]"]) simp
  then have "looks_like_sequence (strip_nl_cr (s @ of_str ''12345'')) 5"
    unfolding ps by (rule sequence_12345)
  then have "fatal R (strip_nl_cr (s @ of_str ''12345''))" by (simp add: fatal_def)
  then show ?thesis by (simp add: is_valid_password_eq)
qed

lemma concat_replicate_take:
  assumes "0 < k"
  shows "take (length u) (concat (replicate k u)) = u"
proof -
  obtain j where "k = Suc j" using assms by (cases k) auto
  then show ?thesis by simp
qed

lemma py_isalnum_ascii:
  "c < 128 \<Longrightarrow> py_isalnum R c \<longleftrightarrow> ascii_letter c \<or> ascii_digit c"
  by (auto simp: py_isalnum_def py_isalpha_def py_isdecimal_def py_isdigit_def py_isnumeric_def)

lemma set_strip_nl_cr: "set (strip_nl_cr s) \<subseteq> set s"
proof -
  have "set (dropWhile is_nl_cr (rev (dropWhile is_nl_cr s))) \<subseteq> set (rev (dropWhile is_nl_cr s))"
    by (auto dest: set_dropWhileD)
  also have "\<dots> \<subseteq> set s" by (auto dest: set_dropWhileD)
  finally show ?thesis by (simp add: strip_nl_cr_def)
qed

lemma re_split_chunks:
  "chunk \<in> set (re_split sep b cur xs) \<Longrightarrow> set chunk \<subseteq> set cur \<union> set xs"
proof (induction xs arbitrary: b cur)
  case Nil
  then show ?case by auto
next
  case (Cons x xs)
  show ?case
  proof (cases "sep x")
    case True
    show ?thesis
    proof (cases b)
      case True
      with \<open>sep x\<close> Cons.prems have "chunk \<in> set (re_split sep True cur xs)" by simp
      from Cons.IH [OF this] show ?thesis by auto
    next
      case False
      with \<open>sep x\<close> Cons.prems have "chunk = rev cur \<or> chunk \<in> set (re_split sep True [] xs)"
        by simp
      then show ?thesis
      proof
        assume "chunk = rev cur" then show ?thesis by auto
      next
        assume "chunk \<in> set (re_split sep True [] xs)"
        from Cons.IH [OF this] show ?thesis by auto
      qed
    qed
  next
    case False
    with Cons.prems have "chunk \<in> set (re_split sep False (x # cur) xs)" by simp
    from Cons.IH [OF this] show ?thesis by auto
  qed
qed

lemma no_letters_not_wordish_segment:
  assumes "\<forall>c\<in>set seg. \<not> ascii_letter c"
  shows "\<not> looks_like_word_segment R seg"
proof -
  have "filter ascii_letter seg = []" using assms by (simp add: filter_empty_conv)
  then show ?thesis by (simp add: looks_like_word_segment_def)
qed

lemma re_search_camel_upper: "re_search_camel xs \<Longrightarrow> \<exists>c\<in>set xs. ascii_upper_letter c"
  by (induction xs) (auto simp: camel_here_def)

lemma re_search3_first: "re_search3 p q r xs \<Longrightarrow> \<exists>c\<in>set xs. p c"
  by (induction p q r xs rule: re_search3.induct) auto

lemma no_letters_not_wordish:
  assumes "\<forall>c\<in>set s. \<not> ascii_letter c"
  shows "\<not> wordish_presence R s"
proof -
  have "\<not> looks_like_word_segment R chunk"
    if "chunk \<in> set (re_split (is_separator R) False [] s)" for chunk
  proof -
    have "set chunk \<subseteq> set s" using re_split_chunks [OF that] by simp
    then show ?thesis using assms by (intro no_letters_not_wordish_segment) auto
  qed
  then have "\<not> list_ex (looks_like_word_segment R) (re_split (is_separator R) False [] s)"
    by (auto simp: list_ex_iff)
  moreover have "\<not> re_search_camel s"
    using re_search_camel_upper [of s] assms by (auto simp: ascii_letter_def)
  ultimately show ?thesis by (simp add: wordish_presence_def)
qed

lemma no_letters_not_interior:
  assumes "\<forall>c\<in>set s. \<not> ascii_letter c"
  shows "\<not> non_edge_digit_symbol s"
  using assms re_search3_first [of ascii_letter _ ascii_letter s]
  by (auto simp: non_edge_digit_symbol_def)

lemma digits_class_points:
  assumes "\<forall>c\<in>set s. ascii_digit c"
  shows "class_points R s = - 3"
proof -
  have lo: "\<not> list_ex (\<lambda>c. 97 \<le> c \<and> c \<le> 122) s"
    and up: "\<not> list_ex (\<lambda>c. 65 \<le> c \<and> c \<le> 90) s"
    using assms by (auto simp: list_ex_iff ascii_digit_def)
  have sy: "\<not> list_ex (\<lambda>c. \<not> py_isalnum R c \<and> \<not> py_isspace R c) s"
    using assms by (auto simp: list_ex_iff ascii_digit_def py_isalnum_def py_isdecimal_def)
  show ?thesis
    by (simp add: class_points_def class_count_def char_classes_def Let_def lo up sy)
qed

lemma digits_table_score:
  assumes "\<forall>c\<in>set s. ascii_digit c"
  shows "table_score R s \<le> 1"
proof -
  have nl: "\<forall>c\<in>set s. \<not> ascii_letter c"
    using assms by (auto simp: ascii_digit_def ascii_letter_def ascii_upper_letter_def
        ascii_lower_letter_def)
  have w: "wordish_points R s = 0"
    using no_letters_not_wordish [OF nl] by (simp add: wordish_points_def)
  have i: "interior_points s = 0"
    using no_letters_not_interior [OF nl] by (simp add: interior_points_def)
  have b: "length_points s \<le> 2" "year_points R s \<le> 0" "sequence_points s \<le> 0"
    "keyboard_points R s \<le> 0" "repetition_points s \<le> 0" "unique_points s \<le> 1"
    "ambiguity_points s \<le> 0"
    by (simp_all add: length_points_def year_points_def sequence_points_def keyboard_points_def
        repetition_points_def unique_points_def ambiguity_points_def)
  have e: "entropy_points R s \<le> 1" using entropy_points_range by blast
  have c: "class_points R s = - 3" using assms by (rule digits_class_points)
  show ?thesis
    using b e by (simp add: table_score_def base_points_def w i c)
qed

lemma repeating_substring_units:
  "repeating_substring t \<longleftrightarrow>
     (\<exists>m\<in>{1, 2, 3}. m < length t \<and> length t mod m = 0
        \<and> (\<exists>u. length u = m \<and> t = concat (replicate (length t div m) u)))"
  (is "?L \<longleftrightarrow> ?R")
proof
  assume ?L
  then have "\<exists>m\<in>set [1..<min 4 (length t)].
          length t mod m = 0 \<and> t = concat (replicate (length t div m) (take m t))"
    unfolding repeating_substring_def Let_def list_ex_iff .
  then obtain m where mem: "m \<in> set [1..<min 4 (length t)]"
    and body: "length t mod m = 0 \<and> t = concat (replicate (length t div m) (take m t))"
    by (rule bexE)
  have b1: "length t mod m = 0" using body by (rule conjunct1)
  have b2: "t = concat (replicate (length t div m) (take m t))" using body by (rule conjunct2)
  have m1: "m \<in> {1, 2, 3}" using mem by auto
  have m2: "m < length t" using mem by auto
  have lt: "length (take m t) = m" using m2 by simp
  have "\<exists>u. length u = m \<and> t = concat (replicate (length t div m) u)"
    by (rule exI [of _ "take m t"]) (rule conjI [OF lt b2])
  then have r: "m < length t \<and> length t mod m = 0
        \<and> (\<exists>u. length u = m \<and> t = concat (replicate (length t div m) u))"
    by (intro conjI m2 b1)
  show ?R using m1 r by (rule rev_bexI)
next
  assume ?R
  then obtain m where m1: "m \<in> {1, 2, 3}"
    and body: "m < length t \<and> length t mod m = 0
        \<and> (\<exists>u. length u = m \<and> t = concat (replicate (length t div m) u))"
    by (rule bexE)
  have m2: "m < length t" using body by (rule conjunct1)
  have m3: "length t mod m = 0" using body by (rule conjunct2 [THEN conjunct1])
  have "\<exists>u. length u = m \<and> t = concat (replicate (length t div m) u)"
    using body by (rule conjunct2 [THEN conjunct2])
  then obtain u where u: "length u = m \<and> t = concat (replicate (length t div m) u)"
    by (rule exE)
  have lu: "length u = m" using u by (rule conjunct1)
  have tu: "t = concat (replicate (length t div m) u)" using u by (rule conjunct2)
  have "0 < m" using m1 by auto
  then have k: "0 < length t div m" using m2 by (simp add: div_greater_zero_iff)
  have "take (length u) (concat (replicate (length t div m) u)) = u"
    using k by (rule concat_replicate_take)
  then have "take m (concat (replicate (length t div m) u)) = u" unfolding lu .
  then have tk: "take m t = u" using tu by (rule back_subst [where P = "\<lambda>w. take m w = u", OF _ sym])
  have eq: "t = concat (replicate (length t div m) (take m t))"
    unfolding tk by (rule tu)
  have mem: "m \<in> set [1..<min 4 (length t)]" using m1 m2 by auto
  have l: "length t mod m = 0 \<and> t = concat (replicate (length t div m) (take m t))"
    using m3 eq by (rule conjI)
  have "\<exists>m\<in>set [1..<min 4 (length t)].
          length t mod m = 0 \<and> t = concat (replicate (length t div m) (take m t))"
    using mem l by (rule rev_bexI)
  then show ?L unfolding repeating_substring_def Let_def list_ex_iff .
qed

lemma tokens_plain:
  "\<forall>tok\<in>set COMMON_BAD. tok \<noteq> [] \<and> (\<forall>c\<in>set tok. c < 128 \<and> \<not> is_nl_cr c)"
  by (simp add: COMMON_BAD_def of_str_def is_nl_cr_def)

lemma ascii_lower_plain:
  assumes "ascii_lower x < 128" "\<not> is_nl_cr (ascii_lower x)"
  shows "x < 128 \<and> \<not> is_nl_cr x"
  using assms by (auto simp: ascii_lower_def ascii_upper_letter_def is_nl_cr_def split: if_splits)

lemma py_in_strip:
  assumes "py_in u s" "u \<noteq> []" "\<forall>c\<in>set u. \<not> is_nl_cr c"
  shows "py_in u (strip_nl_cr s)"
proof -
  obtain ps ss where s: "s = ps @ u @ ss" using assms(1) by (auto simp: py_in_iff)
  have hd: "\<not> is_nl_cr (hd (u @ ss))" using assms(2,3) by (cases u) auto
  have "u @ ss \<noteq> []" using assms(2) by simp
  then obtain ps' where 1: "dropWhile is_nl_cr (ps @ (u @ ss)) = ps' @ (u @ ss)"
    using dropWhile_append_keeps [where P = is_nl_cr and t = "u @ ss" and s = ps] hd by blast
  have "\<not> is_nl_cr (hd (rev u @ rev ps'))"
    using assms(2,3) by (cases "rev u") (auto dest: arg_cong [where f = set])
  moreover have "rev u @ rev ps' \<noteq> []" using assms(2) by simp
  ultimately obtain q where 2: "dropWhile is_nl_cr (rev ss @ (rev u @ rev ps')) = q @ (rev u @ rev ps')"
    using dropWhile_append_keeps [where P = is_nl_cr and t = "rev u @ rev ps'" and s = "rev ss"]
    by blast
  have "strip_nl_cr s = ps' @ u @ rev q"
    unfolding strip_nl_cr_def s 1 by (simp add: 2)
  then show ?thesis unfolding py_in_iff by blast
qed

lemma nth_middle: "i < length u \<Longrightarrow> (ps @ u @ ss) ! (length ps + i) = u ! i"
  by (simp add: nth_append)

lemma py_lower_middle:
  assumes "\<forall>c\<in>set u. c < 128"
  shows "\<exists>a b. py_lower R (ps @ u @ ss) = a @ map ascii_lower u @ b"
proof -
  let ?s = "ps @ u @ ss"
  have i1: "[0..<length ps + (length u + length ss)]
            = [0..<length ps] @ [length ps..<length ps + (length u + length ss)]"
    using upt_add_eq_append [of 0 "length ps" "length u + length ss"] by simp
  have i2: "[length ps..<length ps + length u + length ss]
            = [length ps..<length ps + length u]
              @ [length ps + length u..<length ps + length u + length ss]"
    using upt_add_eq_append [of "length ps" "length ps + length u" "length ss"] by simp
  have idx: "[0..<length ?s] = [0..<length ps] @ [length ps..<length ps + length u]
               @ [length ps + length u..<length ?s]"
    using i1 i2 by (simp add: add.assoc)
  have mid: "map (lower_at R ?s) [length ps..<length ps + length u] = map (\<lambda>c. [ascii_lower c]) u"
  proof (rule nth_equalityI)
    show "length (map (lower_at R ?s) [length ps..<length ps + length u])
          = length (map (\<lambda>c. [ascii_lower c]) u)" by simp
  next
    fix i assume "i < length (map (lower_at R ?s) [length ps..<length ps + length u])"
    then have i: "i < length u" by simp
    then have n: "?s ! (length ps + i) = u ! i" by (rule nth_middle)
    have "u ! i < 128" using assms i by auto
    then have "lower_at R ?s (length ps + i) = [ascii_lower (u ! i)]"
      by (simp only: lower_at_def n if_True)
    then show "map (lower_at R ?s) [length ps..<length ps + length u] ! i
               = map (\<lambda>c. [ascii_lower c]) u ! i"
      using i by simp
  qed
  have "py_lower R ?s = concat (map (lower_at R ?s) [0..<length ps])
          @ concat (map (\<lambda>c. [ascii_lower c]) u)
          @ concat (map (lower_at R ?s) [length ps + length u..<length ?s])"
    unfolding py_lower_def by (subst idx) (simp only: map_append concat_append mid)
  moreover have "concat (map (\<lambda>c. [ascii_lower c]) u) = map ascii_lower u"
    by (induction u) auto
  ultimately have "py_lower R ?s = concat (map (lower_at R ?s) [0..<length ps])
          @ map ascii_lower u
          @ concat (map (lower_at R ?s) [length ps + length u..<length ?s])"
    by simp
  then show ?thesis by (intro exI)
qed

lemma denylist_rejected:
  assumes "tok \<in> set COMMON_BAD" "map ascii_lower u = tok" "py_in u password"
  shows "is_valid_password R password = Inr False"
proof -
  have tok: "tok \<noteq> []" "\<forall>c\<in>set tok. c < 128 \<and> \<not> is_nl_cr c"
    using tokens_plain assms(1) by blast+
  have u1: "u \<noteq> []" using tok(1) assms(2) by auto
  have u2: "\<forall>c\<in>set u. c < 128 \<and> \<not> is_nl_cr c"
  proof
    fix c assume "c \<in> set u"
    then have "ascii_lower c \<in> set tok" using assms(2) by auto
    then have "ascii_lower c < 128 \<and> \<not> is_nl_cr (ascii_lower c)" using tok(2) by blast
    then show "c < 128 \<and> \<not> is_nl_cr c" using ascii_lower_plain by blast
  qed
  have "py_in u (strip_nl_cr password)"
    using assms(3) u1 u2 by (intro py_in_strip) auto
  then obtain ps ss where s: "strip_nl_cr password = ps @ u @ ss" by (auto simp: py_in_iff)
  obtain a b where "py_lower R (ps @ u @ ss) = a @ map ascii_lower u @ b"
    using py_lower_middle [of u R ps ss] u2 by blast
  then have "py_in tok (py_lower R (strip_nl_cr password))"
    unfolding s py_in_iff assms(2) by blast
  then have "denylisted R (strip_nl_cr password)"
    using assms(1) by (auto simp: denylisted_def list_ex_iff)
  then show ?thesis by (simp add: is_valid_password_eq fatal_def)
qed

lemma COMMON_BAD_count: "length COMMON_BAD = 17 \<and> distinct COMMON_BAD"
  by code_simp

lemma py_in_replicate_mem: "py_in (replicate (Suc k) c) t \<Longrightarrow> c \<in> set t"
  by (auto simp: py_in_iff)

lemma starts_with_replicate_Suc:
  "starts_with (replicate (Suc k) c) (x # xs) \<longleftrightarrow> c = x \<and> starts_with (replicate k c) xs"
  by auto

lemma long_run_same_char_iff:
  "long_run_same_char t k \<longleftrightarrow> (\<exists>c\<in>set t. c \<noteq> 10 \<and> py_in (replicate (Suc k) c) t)"
proof -
  have "long_run_same_char t k \<longleftrightarrow> (\<exists>c. c \<noteq> 10 \<and> py_in (replicate (Suc k) c) t)"
  proof (induction t)
    case Nil
    then show ?case by simp
  next
    case (Cons x xs)
    have "long_run_same_char (x # xs) k
          \<longleftrightarrow> (x \<noteq> 10 \<and> starts_with (replicate k x) xs) \<or> long_run_same_char xs k"
      by simp
    also have "\<dots> \<longleftrightarrow> (\<exists>c. c \<noteq> 10 \<and> (starts_with (replicate (Suc k) c) (x # xs)
                                  \<or> py_in (replicate (Suc k) c) xs))"
      unfolding Cons.IH starts_with_replicate_Suc by blast
    also have "\<dots> \<longleftrightarrow> (\<exists>c. c \<noteq> 10 \<and> py_in (replicate (Suc k) c) (x # xs))"
      by (simp only: py_in.simps)
    finally show ?case .
  qed
  then show ?thesis using py_in_replicate_mem by blast
qed

lemma long_run_same_char_no_newline:
  assumes "10 \<notin> set t"
  shows "long_run_same_char t k \<longleftrightarrow> repeats_consecutively t (Suc k)"
proof -
  have ne: "c \<noteq> 10" if "c \<in> set t" for c using that assms by auto
  show ?thesis
    unfolding long_run_same_char_iff repeats_consecutively_def list_ex_iff
    using ne by blast
qed

lemma bex_drop_conjunct:
  assumes "\<And>m. m \<in> S \<Longrightarrow> P m"
  shows "(\<exists>m\<in>S. P m \<and> Q m) \<longleftrightarrow> (\<exists>m\<in>S. Q m)"
  using assms by blast

lemma repeating_substring_long:
  assumes "3 < length t"
  shows "repeating_substring t \<longleftrightarrow> spec_periodic t"
proof -
  have "m < length t" if "m \<in> {1, 2, 3}" for m using that assms by auto
  then show ?thesis
    unfolding repeating_substring_units spec_periodic_def by (rule bex_drop_conjunct)
qed

text \<open>
  Where the stripped input holds no newline, the verdict is the one the specification
  describes: length within 8 to 128, none of the five fatal checks, and a table score of
  at least 3.
\<close>

lemma is_valid_password_newline_free:
  assumes "10 \<notin> set (strip_nl_cr password)"
  shows "is_valid_password R password =
     Inr (8 \<le> length (strip_nl_cr password) \<and> length (strip_nl_cr password) \<le> 128
          \<and> \<not> spec_fatal R (strip_nl_cr password) \<and> 3 \<le> spec_score R (strip_nl_cr password))"
proof (cases "8 \<le> length (strip_nl_cr password)")
  case True
  then have p: "repeating_substring (strip_nl_cr password) \<longleftrightarrow> spec_periodic (strip_nl_cr password)"
    by (intro repeating_substring_long) simp
  have r5: "long_run_same_char (strip_nl_cr password) 4
            \<longleftrightarrow> repeats_consecutively (strip_nl_cr password) 5"
    using long_run_same_char_no_newline [OF assms, of 4] by simp
  have r4: "long_run_same_char (strip_nl_cr password) 3
            \<longleftrightarrow> repeats_consecutively (strip_nl_cr password) 4"
    using long_run_same_char_no_newline [OF assms, of 3] by simp
  have f: "fatal R (strip_nl_cr password) \<longleftrightarrow> spec_fatal R (strip_nl_cr password)"
    unfolding fatal_def spec_fatal_def p r5 ..
  have "repetition_points (strip_nl_cr password) = spec_repetition_points (strip_nl_cr password)"
    unfolding repetition_points_def spec_repetition_points_def r4 ..
  then have "table_score R (strip_nl_cr password) = spec_score R (strip_nl_cr password)"
    by (simp add: table_score_def base_points_def spec_score_def)
  then show ?thesis by (simp add: is_valid_password_eq f)
next
  case False
  then show ?thesis by (simp add: is_valid_password_eq)
qed

section \<open>The claims\<close>

text \<open>
  Claim C3: for every string whose length after stripping leading and trailing
  carriage-return and newline characters is less than 8 or greater than 128,
  \<open>is_valid_password\<close> returns False.
\<close>

theorem short_or_long_rejected:
  assumes "length (strip_nl_cr password) < 8 \<or> 128 < length (strip_nl_cr password)"
  shows "is_valid_password R password = Inr False"
  using assms by (auto simp: is_valid_password_eq)

theorem short_or_long_rejected_witness:
  "(length (strip_nl_cr (10 # of_str ''aB1#'' @ [13, 10])) < 8
     \<or> 128 < length (strip_nl_cr (10 # of_str ''aB1#'' @ [13, 10])))
   \<and> is_valid_password latin1_runtime (10 # of_str ''aB1#'' @ [13, 10]) = Inr False"
proof -
  have h: "length (strip_nl_cr (10 # of_str ''aB1#'' @ [13, 10])) < 8"
    by code_simp
  show ?thesis
    using h short_or_long_rejected [of "10 # of_str ''aB1#'' @ [13, 10]" latin1_runtime]
    by simp
qed

text \<open>
  Claim C8: \<open>is_valid_password\<close> is total: every string, the empty one and those with
  non-ASCII characters included, gives a boolean and no exception. The division of
  \<open>ambiguous_ratio\<close> never fails, on any text, and the scoring phase, which holds the
  unique-ratio division, returns a score on every non-empty string; on the empty string that
  division would raise, and the length check keeps the scoring phase from it.
\<close>

theorem is_valid_password_total:
  "(\<exists>b. is_valid_password R password = Inr b)
   \<and> (\<exists>r. ambiguous_ratio t = Inr r)
   \<and> (s \<noteq> [] \<longrightarrow> (\<exists>sc. scoring R s = Inr sc))
   \<and> scoring R [] = Inl ZeroDivisionError"
  by (simp add: is_valid_password_eq ambiguous_ratio_eq scoring_eq scoring_empty)

theorem is_valid_password_total_witness:
  "(\<exists>b. is_valid_password latin1_runtime [233, 233] = Inr b)
   \<and> (\<exists>r. ambiguous_ratio [] = Inr r)
   \<and> ([233::nat] \<noteq> [] \<and> (\<exists>sc. scoring latin1_runtime [233] = Inr sc))
   \<and> scoring latin1_runtime [] = Inl ZeroDivisionError"
  using is_valid_password_total [of latin1_runtime "[233, 233]" "[]" "[233]"] by simp

text \<open>
  Claim C9: some string of length exactly 8, with all four character classes and no fatal
  pattern, is accepted: its score is at least 3.
\<close>

theorem min_length_accepted:
  "\<exists>s. length s = 8 \<and> char_classes R s = (True, True, True, True)
       \<and> fatal_blocks R s = Inr False
       \<and> (\<exists>sc. scoring R s = Inr sc \<and> 3 \<le> sc)
       \<and> is_valid_password R s = Inr True"
proof -
  let ?s = "of_str ''mintCh#7''"
  have 1: "length ?s = 8" by code_simp
  have 2: "char_classes R ?s = (True, True, True, True)" by code_simp
  have 3: "fatal_blocks R ?s = Inr False" by code_simp
  have 4: "scoring R ?s = Inr 6" by code_simp
  have 5: "is_valid_password R ?s = Inr True" by (rule accepts_mintCh7)
  show ?thesis using 1 2 3 4 5 by (intro exI [of _ ?s]) simp
qed

theorem min_length_accepted_witness:
  "\<exists>s. length s = 8 \<and> char_classes latin1_runtime s = (True, True, True, True)
       \<and> fatal_blocks latin1_runtime s = Inr False
       \<and> (\<exists>sc. scoring latin1_runtime s = Inr sc \<and> 3 \<le> sc)
       \<and> is_valid_password latin1_runtime s = Inr True"
  by (rule min_length_accepted)

text \<open>
  Claim C5: appending the sequential run \<open>12345\<close> to an accepted string gives a rejected
  one. (The appended string is rejected whatever the verdict on the original was.)
\<close>

theorem append_sequence_flips:
  assumes "is_valid_password R s = Inr True"
  shows "is_valid_password R (s @ of_str ''12345'') = Inr False"
  by (rule append_12345_rejected)

theorem append_sequence_flips_witness:
  "is_valid_password latin1_runtime (of_str ''mintCh#7'') = Inr True
   \<and> is_valid_password latin1_runtime (of_str ''mintCh#7'' @ of_str ''12345'') = Inr False"
  using append_sequence_flips [of latin1_runtime "of_str ''mintCh#7''"] accepts_mintCh7 [of latin1_runtime]
  by simp

text \<open>
  Claim C7: \<open>repeating_substring\<close> is true exactly when the text is some unit of length 1,
  2 or 3, dividing the length of the text, repeated to fill the whole string. The helper is
  local to \<open>is_valid_password\<close>, which calls it once, on the stripped password after the
  length checks, so on strings of 8 to 128 characters. The statement holds for every string
  of more than 3 characters; on the shorter ones, which the helper never receives, the loop
  over \<open>range(1, min(4, n))\<close> asks for two copies of the unit at least
  (\<open>repeating_substring_units\<close>).
\<close>

theorem repeating_substring_iff:
  assumes "3 < length t"
  shows "repeating_substring t \<longleftrightarrow>
     (\<exists>m\<in>{1, 2, 3}. length t mod m = 0
        \<and> (\<exists>u. length u = m \<and> t = concat (replicate (length t div m) u)))"
  using repeating_substring_long [OF assms] unfolding spec_periodic_def .

theorem repeating_substring_iff_witness:
  "3 < length (of_str ''xyzxyz'')
   \<and> repeating_substring (of_str ''xyzxyz'')
   \<and> (\<exists>m\<in>{1, 2, 3}. length (of_str ''xyzxyz'') mod m = 0
        \<and> (\<exists>u. length u = m
              \<and> of_str ''xyzxyz'' = concat (replicate (length (of_str ''xyzxyz'') div m) u)))"
proof -
  have h: "3 < length (of_str ''xyzxyz'')" by (simp add: of_str_def)
  have r: "repeating_substring (of_str ''xyzxyz'')" by code_simp
  show ?thesis using h r repeating_substring_iff [OF h] by simp
qed

text \<open>
  Claim C6, as stated: the digit flag is set exactly when some character is an ASCII digit,
  the symbol flag exactly when some character is neither alphanumeric nor whitespace under
  ASCII classification, so that a non-ASCII letter counts as a symbol. The code asks
  \<open>str.isdigit\<close>, \<open>str.isalnum\<close> and \<open>str.isspace\<close>, which know Unicode: the letter
  U+00E9 is alphanumeric, so it sets no flag at all, and the superscript two U+00B2, no ASCII
  digit, sets the digit flag.
\<close>

theorem char_classes_counterexample:
  "\<not> (ascii_letter 233 \<or> ascii_digit 233) \<and> \<not> ascii_space 233
   \<and> char_classes latin1_runtime [233] = (False, False, False, False)
   \<and> \<not> ascii_digit 178
   \<and> char_classes latin1_runtime [178] = (False, False, True, False)"
  by (simp add: char_classes_def py_isdigit_def py_isalnum_def py_isalpha_def py_isdecimal_def
        py_isnumeric_def py_isspace_def ascii_digit_def ascii_letter_def ascii_space_def
        ascii_lower_letter_def ascii_upper_letter_def latin1_runtime_def)

text \<open>
  Claim C6, amended: the digit flag is set exactly when some character satisfies
  \<open>str.isdigit\<close>, the symbol flag exactly when some character satisfies neither
  \<open>str.isalnum\<close> nor \<open>str.isspace\<close>; on ASCII text these are the ASCII digits, and the
  characters that are neither ASCII letters or digits nor Python's ASCII whitespace. A
  non-ASCII letter is alphanumeric, hence never a symbol, and sets neither letter flag.
\<close>

theorem char_classes_flags:
  assumes "char_classes R t = (has_lower, has_upper, has_digit, has_symbol)"
  shows "(has_digit \<longleftrightarrow> (\<exists>c\<in>set t. py_isdigit R c))
       \<and> (has_symbol \<longleftrightarrow> (\<exists>c\<in>set t. \<not> py_isalnum R c \<and> \<not> py_isspace R c))
       \<and> ((\<forall>c\<in>set t. c < 128) \<longrightarrow>
            (has_digit \<longleftrightarrow> (\<exists>c\<in>set t. ascii_digit c))
            \<and> (has_symbol \<longleftrightarrow>
                 (\<exists>c\<in>set t. \<not> (ascii_letter c \<or> ascii_digit c) \<and> \<not> ascii_space c)))
       \<and> (\<forall>c. 128 \<le> c \<and> uni_isalpha R c \<longrightarrow>
             char_classes R [c] = (False, False, uni_isdigit R c, False))"
proof -
  have d: "has_digit \<longleftrightarrow> (\<exists>c\<in>set t. py_isdigit R c)"
    and s: "has_symbol \<longleftrightarrow> (\<exists>c\<in>set t. \<not> py_isalnum R c \<and> \<not> py_isspace R c)"
    using assms by (auto simp: char_classes_def Let_def list_ex_iff)
  have a: "(\<forall>c\<in>set t. c < 128) \<longrightarrow>
            (has_digit \<longleftrightarrow> (\<exists>c\<in>set t. ascii_digit c))
            \<and> (has_symbol \<longleftrightarrow>
                 (\<exists>c\<in>set t. \<not> (ascii_letter c \<or> ascii_digit c) \<and> \<not> ascii_space c))"
    unfolding d s by (auto simp: py_isalnum_ascii py_isdigit_def py_isspace_def)
  have n: "\<forall>c. 128 \<le> c \<and> uni_isalpha R c \<longrightarrow>
             char_classes R [c] = (False, False, uni_isdigit R c, False)"
    by (auto simp: char_classes_def Let_def py_isalnum_def py_isalpha_def py_isdigit_def
          py_isdecimal_def py_isnumeric_def)
  show ?thesis using d s a n by blast
qed

theorem char_classes_flags_witness:
  "char_classes latin1_runtime [97, 233, 55] = (True, False, True, False)
   \<and> (True \<longleftrightarrow> (\<exists>c\<in>set [97, 233, 55]. py_isdigit latin1_runtime c))
   \<and> (False \<longleftrightarrow> (\<exists>c\<in>set [97, 233, 55]. \<not> py_isalnum latin1_runtime c \<and> \<not> py_isspace latin1_runtime c))
   \<and> (128 \<le> (233::nat) \<and> uni_isalpha latin1_runtime 233
        \<and> char_classes latin1_runtime [233] = (False, False, uni_isdigit latin1_runtime 233, False))"
proof -
  have h: "char_classes latin1_runtime [97, 233, 55] = (True, False, True, False)"
    by (simp add: char_classes_def py_isdigit_def py_isalnum_def py_isalpha_def py_isdecimal_def
          py_isnumeric_def py_isspace_def ascii_digit_def ascii_letter_def ascii_space_def
          ascii_lower_letter_def ascii_upper_letter_def latin1_runtime_def)
  have a: "128 \<le> (233::nat) \<and> uni_isalpha latin1_runtime 233"
    by (simp add: latin1_runtime_def)
  show ?thesis
    using h a char_classes_flags [OF h] by blast
qed

text \<open>
  Claim C10: an input made of ASCII digits only is rejected. Without letters there is no
  word-like chunk, no CamelCase and no interior digit or symbol; the single class costs 3;
  what is left, at most 2 for the length, 1 for the unique ratio and 1 for the entropy, keeps
  the score at 1 or below.
\<close>

theorem digits_only_rejected:
  assumes "\<forall>c\<in>set password. ascii_digit c"
  shows "is_valid_password R password = Inr False
       \<and> (\<forall>sc. scoring R (strip_nl_cr password) = Inr sc \<longrightarrow> sc \<le> 1)"
proof -
  have d: "\<forall>c\<in>set (strip_nl_cr password). ascii_digit c"
    using assms set_strip_nl_cr [of password] by auto
  have t: "table_score R (strip_nl_cr password) \<le> 1" using d by (rule digits_table_score)
  have 1: "is_valid_password R password = Inr False"
    using t by (simp add: is_valid_password_eq)
  have 2: "sc \<le> 1" if "scoring R (strip_nl_cr password) = Inr sc" for sc
  proof (cases "strip_nl_cr password = []")
    case True
    then show ?thesis using that by (simp add: scoring_empty)
  next
    case False
    then show ?thesis using that t by (simp add: scoring_eq)
  qed
  show ?thesis using 1 2 by blast
qed

theorem digits_only_rejected_witness:
  "list_all ascii_digit (of_str ''4071382956'')
   \<and> is_valid_password latin1_runtime (of_str ''4071382956'') = Inr False
   \<and> (\<exists>sc. scoring latin1_runtime (strip_nl_cr (of_str ''4071382956'')) = Inr sc \<and> sc \<le> 1)"
proof -
  have h: "\<forall>c\<in>set (of_str ''4071382956''). ascii_digit c"
    by (simp add: of_str_def ascii_digit_def)
  obtain sc where sc: "scoring latin1_runtime (strip_nl_cr (of_str ''4071382956'')) = Inr sc"
    using is_valid_password_eq scoring_eq [of "strip_nl_cr (of_str ''4071382956'')" latin1_runtime]
    by (auto simp: of_str_def strip_nl_cr_def is_nl_cr_def)
  show ?thesis
    using h sc digits_only_rejected [OF h, of latin1_runtime] by (auto simp: list_all_iff)
qed

text \<open>
  Claim C2: the worked examples evaluate as listed: \<open>mintChai#27Drift\<close> and
  \<open>NovaTrail_19$elm\<close> are accepted; \<open>password123\<close>, \<open>11111111\<close>, \<open>O0O0O0O0\<close>,
  \<open>ABABABAB\<close> and \<open>asdfghjk\<close> are rejected.
\<close>

theorem worked_examples:
  "is_valid_password R (of_str ''mintChai#27Drift'') = Inr True
   \<and> is_valid_password R (of_str ''NovaTrail_19$elm'') = Inr True
   \<and> is_valid_password R (of_str ''password123'') = Inr False
   \<and> is_valid_password R (of_str ''11111111'') = Inr False
   \<and> is_valid_password R (of_str ''O0O0O0O0'') = Inr False
   \<and> is_valid_password R (of_str ''ABABABAB'') = Inr False
   \<and> is_valid_password R (of_str ''asdfghjk'') = Inr False"
  by (intro conjI accepts_mintChai accepts_NovaTrail rejects_password123 rejects_11111111
        rejects_O0 rejects_AB rejects_asdfghjk)

theorem worked_examples_witness:
  "is_valid_password latin1_runtime (of_str ''mintChai#27Drift'') = Inr True
   \<and> is_valid_password latin1_runtime (of_str ''NovaTrail_19$elm'') = Inr True
   \<and> is_valid_password latin1_runtime (of_str ''password123'') = Inr False
   \<and> is_valid_password latin1_runtime (of_str ''11111111'') = Inr False
   \<and> is_valid_password latin1_runtime (of_str ''O0O0O0O0'') = Inr False
   \<and> is_valid_password latin1_runtime (of_str ''ABABABAB'') = Inr False
   \<and> is_valid_password latin1_runtime (of_str ''asdfghjk'') = Inr False"
  by (rule worked_examples)

text \<open>
  Claim C4: an input that contains one of the 17 denylist tokens as a substring, in any mix
  of upper and lower case, is rejected.
\<close>

theorem denylist_substring_rejected:
  assumes "tok \<in> set COMMON_BAD" "map ascii_lower u = tok" "py_in u password"
  shows "is_valid_password R password = Inr False
       \<and> length COMMON_BAD = 17 \<and> distinct COMMON_BAD"
  using denylist_rejected [OF assms] COMMON_BAD_count by simp

theorem denylist_substring_rejected_witness:
  "of_str ''dragon'' \<in> set COMMON_BAD
   \<and> map ascii_lower (of_str ''DraGon'') = of_str ''dragon''
   \<and> py_in (of_str ''DraGon'') (of_str ''myDraGon#41x'')
   \<and> is_valid_password latin1_runtime (of_str ''myDraGon#41x'') = Inr False"
proof -
  have 1: "of_str ''dragon'' \<in> set COMMON_BAD" by (simp add: COMMON_BAD_def)
  have 2: "map ascii_lower (of_str ''DraGon'') = of_str ''dragon''" by code_simp
  have 3: "py_in (of_str ''DraGon'') (of_str ''myDraGon#41x'')" by code_simp
  show ?thesis
    using 1 2 3 denylist_substring_rejected [OF 1 2 3, of latin1_runtime] by simp
qed

text \<open>
  Claim C1 makes a run of five or more equal characters a fatal check. In the input below
  the newline occurs five times in a row, in the middle of the string, so the claim asks for
  False; \<open>long_run_same_char\<close> searches with a regular expression whose dot does not match
  a newline, misses the run, and the input is accepted.
\<close>

theorem newline_run_accepted:
  "repeats_consecutively (strip_nl_cr (of_str ''mint'' @ replicate 5 10 @ of_str ''Chai#27Drift'')) 5
   \<and> \<not> long_run_same_char (strip_nl_cr (of_str ''mint'' @ replicate 5 10 @ of_str ''Chai#27Drift'')) 4
   \<and> is_valid_password R (of_str ''mint'' @ replicate 5 10 @ of_str ''Chai#27Drift'') = Inr True"
proof (intro conjI)
  show "repeats_consecutively (strip_nl_cr (of_str ''mint'' @ replicate 5 10 @ of_str ''Chai#27Drift'')) 5"
    by code_simp
  show "\<not> long_run_same_char (strip_nl_cr (of_str ''mint'' @ replicate 5 10 @ of_str ''Chai#27Drift'')) 4"
    by code_simp
  show "is_valid_password R (of_str ''mint'' @ replicate 5 10 @ of_str ''Chai#27Drift'') = Inr True"
    by (rule accept_by_base) code_simp
qed

theorem newline_run_accepted_witness:
  "repeats_consecutively (strip_nl_cr (of_str ''mint'' @ replicate 5 10 @ of_str ''Chai#27Drift'')) 5
   \<and> \<not> long_run_same_char (strip_nl_cr (of_str ''mint'' @ replicate 5 10 @ of_str ''Chai#27Drift'')) 4
   \<and> is_valid_password latin1_runtime (of_str ''mint'' @ replicate 5 10 @ of_str ''Chai#27Drift'')
       = Inr True"
  by (rule newline_run_accepted)

end
